theory Spec2Isabelle
  imports Main "HOL-Library.Multiset"
begin

section \<open>The delivery client and the events of a run\<close>

text \<open>
  The bot of \<^verbatim>\<open>bot.py\<close> forwards every post of a master channel to a list of target
  channels. The only call it makes to the outside is \<^verbatim>\<open>await message.forward(chat_id=...)\<close>,
  which either returns or raises. The \<^verbatim>\<open>except\<close> clauses of \<^verbatim>\<open>forward_to_channel\<close>
  distinguish the classes below, in this order: \<^verbatim>\<open>RetryAfter\<close>, \<^verbatim>\<open>TimedOut\<close>, any other
  \<^verbatim>\<open>TelegramError\<close>, any other \<^verbatim>\<open>Exception\<close>. What is raised and derives from
  \<^verbatim>\<open>BaseException\<close> only (\<^verbatim>\<open>asyncio.CancelledError\<close>) is caught by none of them.
\<close>

type_synonym channel = string

datatype relay_result =
    Relayed
  | RetryAfter int
  | TimedOut
  | TelegramError string
  | OtherException string
  | BaseFault string

text \<open>
  The log lines, one constructor per \<^verbatim>\<open>logger\<close> call of the source, holding the values
  that the line formats.
\<close>

datatype log_entry =
    Forwarded channel
  | RateLimitHit channel int
  | TimeoutRetrying channel nat int
  | PermanentError channel string
  | ErrorAttempt channel nat int string
  | UnexpectedError channel string
  | FailedAfter channel int
  | NewMessage string
  | ForwardingTo nat
  | ProcessingBatch nat nat
  | Separator
  | ForwardComplete
  | Summary nat nat nat

text \<open>
  What one call of \<^verbatim>\<open>forward_to_channel\<close> does, in order: relay attempts, sleeps and
  log lines.
\<close>

datatype fevent =
    Forward channel
  | Sleep int
  | Log log_entry

text \<open>A coroutine either returns a value or ends with an exception.\<close>

datatype 'a outcome = Returned 'a | Raised string

section \<open>Classification of delivery-client errors\<close>

text \<open>
  \<^verbatim>\<open>error_msg = str(e).lower()\<close>, on the ASCII letters (a \<open>char\<close> is a byte).
\<close>

definition lower_char :: "char \<Rightarrow> char" where
  "lower_char c =
     (let n = (of_char c :: nat) in if 65 \<le> n \<and> n \<le> 90 then char_of (n + 32) else c)"

definition lower :: "string \<Rightarrow> string" where
  "lower s = map lower_char s"

fun starts_with :: "string \<Rightarrow> string \<Rightarrow> bool" where
  "starts_with [] s = True"
| "starts_with (p # ps) [] = False"
| "starts_with (p # ps) (c # cs) = (p = c \<and> starts_with ps cs)"

text \<open>\<^verbatim>\<open>err in error_msg\<close>: the substring test of Python.\<close>

fun contains :: "string \<Rightarrow> string \<Rightarrow> bool" where
  "contains err [] = (err = [])"
| "contains err (c # cs) = (starts_with err (c # cs) \<or> contains err cs)"

definition permanent_markers :: "string list" where
  "permanent_markers =
     [''chat not found'', ''bot was kicked'', ''not a member'', ''have no rights'']"

definition is_permanent :: "string \<Rightarrow> bool" where
  "is_permanent msg = list_ex (\<lambda>err. contains err (lower msg)) permanent_markers"

section \<open>The per-destination forwarder\<close>

definition prepend :: "'e list \<Rightarrow> 'r \<times> 'e list \<Rightarrow> 'r \<times> 'e list" where
  "prepend es p = (fst p, es @ snd p)"

text \<open>
  \<^verbatim>\<open>for attempt in range(retries)\<close> of \<^verbatim>\<open>forward_to_channel\<close>. The argument
  \<open>relay\<close> is the delivery client as this task meets it: \<open>relay k\<close> is what the call of
  \<^verbatim>\<open>message.forward\<close> in iteration \<open>k\<close> does. The result is what the coroutine returns
  or raises, with the events it performed.
\<close>

function attempt_loop ::
  "(nat \<Rightarrow> relay_result) \<Rightarrow> channel \<Rightarrow> int \<Rightarrow> nat \<Rightarrow> bool outcome \<times> fevent list" where
  "attempt_loop relay channel_id retries attempt =
     (if int attempt < retries then
        (case relay attempt of
           Relayed \<Rightarrow>
             (Returned True, [Forward channel_id, Log (Forwarded channel_id)])
         | RetryAfter retry_after \<Rightarrow>
             (let wait_time = retry_after + 1 in
              prepend [Forward channel_id, Log (RateLimitHit channel_id wait_time),
                       Sleep wait_time]
                (attempt_loop relay channel_id retries (attempt + 1)))
         | TimedOut \<Rightarrow>
             prepend [Forward channel_id,
                      Log (TimeoutRetrying channel_id (attempt + 1) retries), Sleep 2]
               (attempt_loop relay channel_id retries (attempt + 1))
         | TelegramError e \<Rightarrow>
             (if is_permanent e then
                (Returned False, [Forward channel_id, Log (PermanentError channel_id e)])
              else
                prepend ([Forward channel_id,
                          Log (ErrorAttempt channel_id (attempt + 1) retries e)]
                         @ (if int attempt < retries - 1 then [Sleep 1] else []))
                  (attempt_loop relay channel_id retries (attempt + 1)))
         | OtherException e \<Rightarrow>
             (Returned False, [Forward channel_id, Log (UnexpectedError channel_id e)])
         | BaseFault e \<Rightarrow>
             (Raised e, [Forward channel_id]))
      else (Returned False, [Log (FailedAfter channel_id retries)]))"
  by pat_completeness auto
termination
  by (relation "measure (\<lambda>(relay, channel_id, retries, attempt). nat (retries - int attempt))")
     auto

declare attempt_loop.simps [simp del]

definition forward_to_channel ::
  "(nat \<Rightarrow> relay_result) \<Rightarrow> channel \<Rightarrow> int \<Rightarrow> bool outcome \<times> fevent list" where
  "forward_to_channel relay channel_id retries = attempt_loop relay channel_id retries 0"

section \<open>The batch dispatcher\<close>

text \<open>
  The fields of a channel post that \<^verbatim>\<open>forward_message\<close> reads, each as its truth value
  (\<^verbatim>\<open>if message.photo: ...\<close>); they decide one log line only.
\<close>

record message =
  photo :: bool
  video :: bool
  document :: bool
  audio :: bool
  voice :: bool
  sticker :: bool
  poll :: bool

record update =
  channel_post :: "message option"

definition msg_type_of :: "message \<Rightarrow> string" where
  "msg_type_of m =
     (if photo m then ''photo''
      else if video m then ''video''
      else if document m then ''document''
      else if audio m then ''audio''
      else if voice m then ''voice''
      else if sticker m then ''sticker''
      else if poll m then ''poll''
      else ''text'')"

definition batch_size :: nat where
  "batch_size = 20"

text \<open>
  What \<^verbatim>\<open>forward_message\<close> does, in order. \<open>Gather\<close> stands for
  \<^verbatim>\<open>await asyncio.gather(*tasks, return_exceptions=True)\<close> and holds, for each task
  of the batch in the order of \<^verbatim>\<open>tasks\<close>, the \<^verbatim>\<open>ch_id\<close> it was created with and
  the events it performed; how the scheduler interleaves the tasks is not recorded.
\<close>

datatype devent =
    DLog log_entry
  | Gather "(channel \<times> fevent list) list"
  | DSleep int

text \<open>
  The two sums over \<^verbatim>\<open>results\<close>: \<^verbatim>\<open>r is True\<close> and \<^verbatim>\<open>r is not True\<close>. With
  \<^verbatim>\<open>return_exceptions=True\<close> a task that raised contributes its exception as a value.
\<close>

definition count_true :: "bool outcome list \<Rightarrow> nat" where
  "count_true results = length (filter (\<lambda>r. r = Returned True) results)"

definition count_not_true :: "bool outcome list \<Rightarrow> nat" where
  "count_not_true results = length (filter (\<lambda>r. r \<noteq> Returned True) results)"

text \<open>
  The tasks of one batch: \<^verbatim>\<open>[forward_to_channel(message, ch_id) for ch_id in batch]\<close>,
  each called with the default \<^verbatim>\<open>retries=3\<close>. The delivery client is \<open>env\<close>:
  \<open>env p k\<close> is what the \<open>k\<close>-th relay attempt of the task for position \<open>p\<close> of
  \<^verbatim>\<open>TARGET_CHANNELS\<close> does. Every interleaving of the tasks gives each of them some
  sequence of responses, so a statement for all \<open>env\<close> covers all interleavings.
\<close>

definition run_batch ::
  "(nat \<Rightarrow> nat \<Rightarrow> relay_result) \<Rightarrow> nat \<Rightarrow> channel list \<Rightarrow> (bool outcome \<times> fevent list) list" where
  "run_batch env i batch =
     map (\<lambda>(j, ch_id). forward_to_channel (env (i + j)) ch_id 3) (enumerate 0 batch)"

text \<open>
  \<^verbatim>\<open>for i in range(0, len(TARGET_CHANNELS), batch_size)\<close>, with the counters
  \<^verbatim>\<open>successful\<close> and \<^verbatim>\<open>failed\<close> threaded through. The slice
  \<^verbatim>\<open>TARGET_CHANNELS[i:i + batch_size]\<close> is \<open>take batch_size (drop i target_channels)\<close>.
\<close>

function batch_loop ::
  "(nat \<Rightarrow> nat \<Rightarrow> relay_result) \<Rightarrow> channel list \<Rightarrow> nat \<Rightarrow> nat \<Rightarrow> nat \<Rightarrow>
   (nat \<times> nat) \<times> devent list" where
  "batch_loop env target_channels i successful failed =
     (if i < length target_channels then
        (let batch = take batch_size (drop i target_channels);
             tasks = run_batch env i batch;
             results = map fst tasks
         in prepend
              ([DLog (ProcessingBatch (i div batch_size + 1) (length batch)),
                Gather (zip batch (map snd tasks))]
               @ (if i + batch_size < length target_channels then [DSleep 1] else []))
              (batch_loop env target_channels (i + batch_size)
                 (successful + count_true results) (failed + count_not_true results)))
      else ((successful, failed), []))"
  by pat_completeness auto
termination
  by (relation "measure (\<lambda>(env, target_channels, i, successful, failed).
                  length target_channels - i)")
     (auto simp: batch_size_def)

declare batch_loop.simps [simp del]

text \<open>
  The handler. It returns nothing; what it does is its events, the last of which carry
  the counts of the run.
\<close>

definition forward_message ::
  "(nat \<Rightarrow> nat \<Rightarrow> relay_result) \<Rightarrow> channel list \<Rightarrow> update \<Rightarrow> devent list" where
  "forward_message env target_channels upd =
     (case channel_post upd of
        None \<Rightarrow> []
      | Some msg \<Rightarrow>
          [DLog (NewMessage (msg_type_of msg)),
           DLog (ForwardingTo (length target_channels))]
          @ snd (batch_loop env target_channels 0 0 0)
          @ [DLog Separator, DLog ForwardComplete,
             DLog (Summary (fst (fst (batch_loop env target_channels 0 0 0)))
                     (length target_channels)
                     (snd (fst (batch_loop env target_channels 0 0 0)))),
             DLog Separator])"

section \<open>The configured destinations\<close>

text \<open>
  \<^verbatim>\<open>os.environ.get('TARGET_CHANNELS', '').split(',')\<close>, then
  \<^verbatim>\<open>[ch.strip() for ch in TARGET_CHANNELS if ch.strip()]\<close>. The white space of
  \<^verbatim>\<open>str.strip\<close> is taken on ASCII: the characters 9 to 13 and 28 to 32.
\<close>

definition is_space :: "char \<Rightarrow> bool" where
  "is_space c = (let n = (of_char c :: nat) in (9 \<le> n \<and> n \<le> 13) \<or> (28 \<le> n \<and> n \<le> 32))"

definition strip :: "string \<Rightarrow> string" where
  "strip s = rev (dropWhile is_space (rev (dropWhile is_space s)))"

fun split_on :: "char \<Rightarrow> string \<Rightarrow> string list" where
  "split_on sep [] = [[]]"
| "split_on sep (c # cs) =
     (if c = sep then [] # split_on sep cs
      else (case split_on sep cs of
              [] \<Rightarrow> [[c]]
            | part # parts \<Rightarrow> (c # part) # parts))"

definition target_channels_of :: "string option \<Rightarrow> channel list" where
  "target_channels_of var =
     map strip
       (filter (\<lambda>ch. strip ch \<noteq> [])
          (split_on (CHR '','') (case var of None \<Rightarrow> [] | Some s \<Rightarrow> s)))"

section \<open>Reading the events of a run\<close>

text \<open>The relay attempts and the sleeps among the events of one forwarder.\<close>

fun is_forward :: "fevent \<Rightarrow> bool" where
  "is_forward (Forward ch) = True"
| "is_forward e = False"

definition relay_attempts :: "fevent list \<Rightarrow> nat" where
  "relay_attempts t = length (filter is_forward t)"

fun sleeps :: "fevent list \<Rightarrow> int list" where
  "sleeps [] = []"
| "sleeps (Sleep s # t) = s # sleeps t"
| "sleeps (e # t) = sleeps t"

text \<open>
  The responses after which \<^verbatim>\<open>forward_to_channel\<close> goes on to its next iteration, and
  among them the transient errors: a timeout, or a delivery-client error that is not
  permanent.
\<close>

fun continues :: "relay_result \<Rightarrow> bool" where
  "continues (RetryAfter r) = True"
| "continues TimedOut = True"
| "continues (TelegramError e) = (\<not> is_permanent e)"
| "continues r = False"

fun is_transient :: "relay_result \<Rightarrow> bool" where
  "is_transient TimedOut = True"
| "is_transient (TelegramError e) = (\<not> is_permanent e)"
| "is_transient r = False"

text \<open>The events of consecutive rate-limited iterations with the given waits.\<close>

definition rate_limit_events :: "channel \<Rightarrow> int list \<Rightarrow> fevent list" where
  "rate_limit_events ch rs =
     concat (map (\<lambda>r. [Forward ch, Log (RateLimitHit ch (r + 1)), Sleep (r + 1)]) rs)"

text \<open>
  Among the events of the handler: the summary lines as (successful, total, failed), the
  batches as lists of destinations, all gathered tasks, and the inter-batch sleeps.
\<close>

fun summaries :: "devent list \<Rightarrow> (nat \<times> nat \<times> nat) list" where
  "summaries [] = []"
| "summaries (DLog (Summary s n f) # t) = (s, n, f) # summaries t"
| "summaries (e # t) = summaries t"

fun gathers :: "devent list \<Rightarrow> (channel \<times> fevent list) list list" where
  "gathers [] = []"
| "gathers (Gather ts # t) = ts # gathers t"
| "gathers (e # t) = gathers t"

definition dispatched :: "devent list \<Rightarrow> channel list list" where
  "dispatched t = map (map fst) (gathers t)"

fun delays :: "devent list \<Rightarrow> int list" where
  "delays [] = []"
| "delays (DSleep d # t) = d # delays t"
| "delays (e # t) = delays t"

text \<open>The order of batches and inter-batch sleeps, the log lines left out.\<close>

datatype step = Batch | Delay

fun skeleton :: "devent list \<Rightarrow> step list" where
  "skeleton [] = []"
| "skeleton (Gather ts # t) = Batch # skeleton t"
| "skeleton (DSleep d # t) = Delay # skeleton t"
| "skeleton (DLog l # t) = skeleton t"

text \<open>\<open>k\<close> batches with a delay between any two of them, and none after the last.\<close>

fun alternating :: "nat \<Rightarrow> step list" where
  "alternating 0 = []"
| "alternating (Suc 0) = [Batch]"
| "alternating (Suc (Suc k)) = Batch # Delay # alternating (Suc k)"

text \<open>The elements of a list with indices from \<open>a\<close> up to, not including, \<open>b\<close>.\<close>

definition slice :: "'a list \<Rightarrow> nat \<Rightarrow> nat \<Rightarrow> 'a list" where
  "slice xs a b = take (b - a) (drop a xs)"

text \<open>The task of the destination at position \<open>p\<close>, run on its own.\<close>

definition task ::
  "(nat \<Rightarrow> nat \<Rightarrow> relay_result) \<Rightarrow> channel list \<Rightarrow> nat \<Rightarrow> bool outcome \<times> fevent list" where
  "task env target_channels p = forward_to_channel (env p) (target_channels ! p) 3"

text \<open>A configuration value: the entries joined by commas.\<close>

fun join_entries :: "string list \<Rightarrow> string" where
  "join_entries [] = []"
| "join_entries [e] = e"
| "join_entries (e # es) = e @ CHR '','' # join_entries es"

section \<open>Concrete delivery clients\<close>

text \<open>
  Delivery clients for the concrete runs below: one that is rate limited at every attempt,
  one that is rate limited twice and then relays, one whose destination has removed the
  bot, one that always times out, one that times out and then fails with an error that is
  no \<^verbatim>\<open>TelegramError\<close>, and one that relays at the second attempt.
\<close>

definition rate_limited_relay :: "nat \<Rightarrow> relay_result" where
  "rate_limited_relay k = RetryAfter 5"

definition recovering_relay :: "nat \<Rightarrow> relay_result" where
  "recovering_relay k = (if k < 2 then RetryAfter 1 else Relayed)"

definition kicked_relay :: "nat \<Rightarrow> relay_result" where
  "kicked_relay k = TelegramError ''Forbidden: Bot was kicked from the channel chat''"

definition timing_out_relay :: "nat \<Rightarrow> relay_result" where
  "timing_out_relay k = TimedOut"

definition crashing_relay :: "nat \<Rightarrow> relay_result" where
  "crashing_relay k = (if k = 0 then TimedOut else OtherException ''boom'')"

definition second_try_relay :: "nat \<Rightarrow> relay_result" where
  "second_try_relay k = (if k = 0 then TelegramError ''Bad Gateway'' else Relayed)"


text \<open>
  The number of iterations that \<^verbatim>\<open>range(i, n, batch_size)\<close> still makes from index
  \<open>i\<close> on.
\<close>

definition batches_from :: "nat \<Rightarrow> nat \<Rightarrow> nat" where
  "batches_from n i = (n - i + (batch_size - 1)) div batch_size"

section \<open>Concrete updates, destinations and environments\<close>

text \<open>
  A channel post and an update without one; an environment in which every relay succeeds,
  and one in which the task at position 1 is cancelled and the task at position 2 meets
  an unexpected exception; three destinations, and forty-one.
\<close>

definition video_post :: message where
  "video_post = \<lparr>photo = False, video = True, document = False, audio = False,
                  voice = False, sticker = False, poll = False\<rparr>"

definition post_update :: update where
  "post_update = \<lparr>channel_post = Some video_post\<rparr>"

definition other_update :: update where
  "other_update = \<lparr>channel_post = None\<rparr>"

definition relaying_env :: "nat \<Rightarrow> nat \<Rightarrow> relay_result" where
  "relaying_env p k = Relayed"

definition faulty_env :: "nat \<Rightarrow> nat \<Rightarrow> relay_result" where
  "faulty_env p k =
     (if p = 1 then BaseFault ''CancelledError''
      else if p = 2 then OtherException ''boom''
      else Relayed)"

definition three_channels :: "channel list" where
  "three_channels = [''-1001'', ''-1002'', ''-1003'']"

definition many_channels :: "channel list" where
  "many_channels = replicate 41 ''-1001''"

text \<open>
  A configuration value with padded entries, an empty entry and a repeated destination.
\<close>

definition configured_entries :: "string list" where
  "configured_entries = ['' -1001'', ''-1002 '', [], ''-1001'']"

section \<open>The forwarder: auxiliary facts\<close>

lemma starts_with_append: "starts_with m (m @ post)"
  by (induction m) auto

lemma contains_starts_with: "starts_with m s \<Longrightarrow> contains m s"
  by (cases s) (auto elim: starts_with.elims)

lemma contains_append: "contains m (pre @ m @ post)"
proof (induction pre)
  case Nil
  show ?case using contains_starts_with [OF starts_with_append] by simp
next
  case (Cons c pre)
  then show ?case by simp
qed

lemma is_permanent_marker:
  assumes "m \<in> set permanent_markers" and "lower msg = pre @ m @ post"
  shows "is_permanent msg"
  unfolding is_permanent_def list_ex_iff using assms contains_append by auto

lemma relay_attempts_append [simp]:
  "relay_attempts (s @ t) = relay_attempts s + relay_attempts t"
  by (simp add: relay_attempts_def)

lemma relay_attempts_Cons [simp]:
  "relay_attempts (e # t) = (if is_forward e then 1 else 0) + relay_attempts t"
  by (simp add: relay_attempts_def)

lemma relay_attempts_Nil [simp]: "relay_attempts [] = 0"
  by (simp add: relay_attempts_def)

lemma attempt_loop_done:
  "\<not> int a < retries \<Longrightarrow>
   attempt_loop relay ch retries a = (Returned False, [Log (FailedAfter ch retries)])"
  by (subst attempt_loop.simps) simp

lemma attempt_loop_continues:
  assumes "int a < retries" and "continues (relay a)"
  shows "fst (attempt_loop relay ch retries a) = fst (attempt_loop relay ch retries (Suc a))"
    and "relay_attempts (snd (attempt_loop relay ch retries a)) =
         Suc (relay_attempts (snd (attempt_loop relay ch retries (Suc a))))"
  using assms
  by (subst attempt_loop.simps, cases "relay a"; simp add: prepend_def Let_def)+

lemma attempt_loop_skip:
  assumes "\<forall>j. a \<le> j \<and> j < k \<longrightarrow> continues (relay j)" and "a \<le> k" and "int k \<le> retries"
  shows "fst (attempt_loop relay ch retries a) = fst (attempt_loop relay ch retries k) \<and>
         relay_attempts (snd (attempt_loop relay ch retries a)) =
         (k - a) + relay_attempts (snd (attempt_loop relay ch retries k))"
  using assms
proof (induction "k - a" arbitrary: a)
  case 0
  then show ?case by simp
next
  case (Suc n)
  then have lt: "a < k" and c: "continues (relay a)" by auto
  then have ia: "int a < retries" using Suc.prems by linarith
  have "fst (attempt_loop relay ch retries (Suc a)) = fst (attempt_loop relay ch retries k) \<and>
        relay_attempts (snd (attempt_loop relay ch retries (Suc a))) =
        (k - Suc a) + relay_attempts (snd (attempt_loop relay ch retries k))"
    using Suc by (intro Suc.hyps) auto
  with attempt_loop_continues [of a retries relay ch, OF ia c] lt show ?case by simp
qed

lemma attempt_loop_rate_limited:
  assumes "\<forall>j<length rs. relay (a + j) = RetryAfter (rs ! j)"
    and "int (a + length rs) \<le> retries"
  shows "attempt_loop relay ch retries a =
         prepend (rate_limit_events ch rs) (attempt_loop relay ch retries (a + length rs))"
  using assms
proof (induction rs arbitrary: a)
  case Nil
  then show ?case by (simp add: rate_limit_events_def prepend_def)
next
  case (Cons r rs)
  from Cons.prems(1) have ra: "relay a = RetryAfter r" by force
  from Cons.prems(2) have ia: "int a < retries" by simp
  have "\<forall>j<length rs. relay (Suc a + j) = RetryAfter (rs ! j)"
    using Cons.prems(1) by force
  moreover have "int (Suc a + length rs) \<le> retries" using Cons.prems(2) by simp
  ultimately have IH: "attempt_loop relay ch retries (Suc a) =
         prepend (rate_limit_events ch rs) (attempt_loop relay ch retries (Suc a + length rs))"
    by (rule Cons.IH)
  show ?case
    by (subst attempt_loop.simps) (simp add: ia ra IH prepend_def rate_limit_events_def Let_def)
qed

lemma attempt_loop_true:
  "fst (attempt_loop relay ch retries a) = Returned True \<Longrightarrow>
   \<exists>k\<ge>a. int k < retries \<and> relay k = Relayed \<and> (\<forall>j. a \<le> j \<and> j < k \<longrightarrow> continues (relay j))"
proof (induction "nat (retries - int a)" arbitrary: a)
  case 0
  then have "\<not> int a < retries" by simp
  from attempt_loop_done [OF this] 0 show ?case by simp
next
  case (Suc n)
  then have ia: "int a < retries" by linarith
  show ?case
  proof (cases "relay a = Relayed")
    case True
    with ia show ?thesis by auto
  next
    case False
    have c: "continues (relay a)"
      using Suc.prems ia False
      by (subst (asm) attempt_loop.simps) (cases "relay a"; simp add: prepend_def Let_def split: if_splits)
    with attempt_loop_continues(1) [of a retries relay ch, OF ia c] Suc.prems
    have "fst (attempt_loop relay ch retries (Suc a)) = Returned True" by simp
    moreover have "n = nat (retries - int (Suc a))" using Suc.hyps(2) by linarith
    ultimately obtain k where k: "k \<ge> Suc a" "int k < retries" "relay k = Relayed"
      "\<forall>j. Suc a \<le> j \<and> j < k \<longrightarrow> continues (relay j)"
      using Suc.hyps(1) by blast
    have "\<forall>j. a \<le> j \<and> j < k \<longrightarrow> continues (relay j)"
      using k(4) c by (metis Suc_leI le_neq_implies_less)
    with k show ?thesis by (meson Suc_leD)
  qed
qed

lemma is_transient_continues: "is_transient r \<Longrightarrow> continues r"
  by (cases r) auto

section \<open>The forwarder: rate limits, retries and permanent errors\<close>

text \<open>
  C3, as stated: a run of consecutive rate-limit errors alone never makes
  \<^verbatim>\<open>forward_to_channel\<close> return false, the relay being attempted again after every
  rate-limit sleep. It fails on the code: with the default three retries and a delivery
  client that answers every attempt with \<^verbatim>\<open>RetryAfter\<close> of 5 seconds, the forwarder
  makes three attempts, sleeps 6 seconds after each of them, also after the third, and
  returns false without a fourth attempt.
\<close>

theorem rate_limit_unbounded_counterexample:
  "rate_limited_relay 0 = RetryAfter 5 \<and> rate_limited_relay 1 = RetryAfter 5
   \<and> rate_limited_relay 2 = RetryAfter 5
   \<and> forward_to_channel rate_limited_relay ''-1001'' 3
       = (Returned False,
          [Forward ''-1001'', Log (RateLimitHit ''-1001'' 6), Sleep 6,
           Forward ''-1001'', Log (RateLimitHit ''-1001'' 6), Sleep 6,
           Forward ''-1001'', Log (RateLimitHit ''-1001'' 6), Sleep 6,
           Log (FailedAfter ''-1001'' 3)])"
  by code_simp

text \<open>
  C3, amended: a rate-limited attempt is followed by a sleep of the reported wait plus one
  second and takes one of the \<^verbatim>\<open>retries\<close> iterations of the loop. When the first
  attempts are all rate limited with the waits \<open>rs\<close>, then: if they are as many as
  \<^verbatim>\<open>retries\<close>, the forwarder returns false after exactly these attempts; if they are
  fewer and the next attempt relays, it returns true after them and that attempt.
\<close>

theorem rate_limit_consumes_retry_slot:
  assumes "\<forall>j<length rs. relay j = RetryAfter (rs ! j)"
  shows "(int (length rs) = retries \<longrightarrow>
            forward_to_channel relay ch retries
              = (Returned False, rate_limit_events ch rs @ [Log (FailedAfter ch retries)]))
         \<and> (int (length rs) < retries \<and> relay (length rs) = Relayed \<longrightarrow>
              forward_to_channel relay ch retries
                = (Returned True, rate_limit_events ch rs @ [Forward ch, Log (Forwarded ch)]))"
proof (intro conjI impI)
  assume e: "int (length rs) = retries"
  have "attempt_loop relay ch retries 0 =
        prepend (rate_limit_events ch rs) (attempt_loop relay ch retries (0 + length rs))"
    using assms e by (intro attempt_loop_rate_limited) auto
  moreover have "attempt_loop relay ch retries (length rs)
                   = (Returned False, [Log (FailedAfter ch retries)])"
    using e by (intro attempt_loop_done) simp
  ultimately show "forward_to_channel relay ch retries
              = (Returned False, rate_limit_events ch rs @ [Log (FailedAfter ch retries)])"
    by (simp add: forward_to_channel_def prepend_def)
next
  assume l: "int (length rs) < retries \<and> relay (length rs) = Relayed"
  have "attempt_loop relay ch retries 0 =
        prepend (rate_limit_events ch rs) (attempt_loop relay ch retries (0 + length rs))"
    using assms l by (intro attempt_loop_rate_limited) auto
  moreover have "attempt_loop relay ch retries (length rs)
                   = (Returned True, [Forward ch, Log (Forwarded ch)])"
    using l by (subst attempt_loop.simps) simp
  ultimately show "forward_to_channel relay ch retries
                = (Returned True, rate_limit_events ch rs @ [Forward ch, Log (Forwarded ch)])"
    by (simp add: forward_to_channel_def prepend_def)
qed

theorem rate_limit_consumes_retry_slot_witness:
  "forward_to_channel rate_limited_relay ''-1001'' 3
     = (Returned False, rate_limit_events ''-1001'' [5, 5, 5] @ [Log (FailedAfter ''-1001'' 3)])
   \<and> forward_to_channel recovering_relay ''-1001'' 3
       = (Returned True,
          rate_limit_events ''-1001'' [1, 1] @ [Forward ''-1001'', Log (Forwarded ''-1001'')])"
proof -
  have h1: "\<forall>j<length [5, 5, 5 :: int]. rate_limited_relay j = RetryAfter ([5, 5, 5] ! j)"
    by (simp add: rate_limited_relay_def nth_Cons split: nat.splits)
  have h2: "\<forall>j<length [1, 1 :: int]. recovering_relay j = RetryAfter ([1, 1] ! j)"
    by (simp add: recovering_relay_def nth_Cons split: nat.splits)
  have h3: "int (length [1, 1 :: int]) < 3 \<and> recovering_relay (length [1, 1 :: int]) = Relayed"
    by (simp add: recovering_relay_def)
  show ?thesis
    using rate_limit_consumes_retry_slot
        [where relay = rate_limited_relay and rs = "[5, 5, 5]" and retries = 3
           and ch = "''-1001''", OF h1]
      rate_limit_consumes_retry_slot
        [where relay = recovering_relay and rs = "[1, 1]" and retries = 3
           and ch = "''-1001''", OF h2] h3
    by simp
qed

text \<open>
  C4: when the first relay attempt fails with a delivery-client error whose message, in
  lower case, contains one of the four permanent markers, the forwarder returns false
  after that single attempt, whatever the number of retries: nothing is retried and
  nothing is slept.
\<close>

theorem permanent_error_single_attempt:
  assumes "0 < retries" and "relay 0 = TelegramError msg"
    and "m \<in> set permanent_markers" and "lower msg = pre @ m @ post"
  shows "forward_to_channel relay ch retries
           = (Returned False, [Forward ch, Log (PermanentError ch msg)])
         \<and> relay_attempts (snd (forward_to_channel relay ch retries)) = 1
         \<and> sleeps (snd (forward_to_channel relay ch retries)) = []"
proof -
  have p: "is_permanent msg" using assms(3,4) by (rule is_permanent_marker)
  have "forward_to_channel relay ch retries
          = (Returned False, [Forward ch, Log (PermanentError ch msg)])"
    unfolding forward_to_channel_def
    by (subst attempt_loop.simps) (simp add: assms(1,2) p)
  then show ?thesis by simp
qed

theorem permanent_error_single_attempt_witness:
  "forward_to_channel kicked_relay ''-1001'' 3
     = (Returned False,
        [Forward ''-1001'',
         Log (PermanentError ''-1001'' ''Forbidden: Bot was kicked from the channel chat'')])
   \<and> relay_attempts (snd (forward_to_channel kicked_relay ''-1001'' 3)) = 1
   \<and> sleeps (snd (forward_to_channel kicked_relay ''-1001'' 3)) = []"
proof -
  have h1: "(0::int) < 3" by simp
  have h2: "kicked_relay 0 = TelegramError ''Forbidden: Bot was kicked from the channel chat''"
    by (simp add: kicked_relay_def)
  have h3: "''bot was kicked'' \<in> set permanent_markers"
    by (simp add: permanent_markers_def)
  have h4: "lower ''Forbidden: Bot was kicked from the channel chat''
              = ''forbidden: '' @ ''bot was kicked'' @ '' from the channel chat''"
    by code_simp
  show ?thesis
    using permanent_error_single_attempt
      [where relay = kicked_relay and retries = 3 and ch = "''-1001''"
         and m = "''bot was kicked''" and pre = "''forbidden: ''"
         and post = "'' from the channel chat''", OF h1 h2 h3 h4]
    by simp
qed

text \<open>
  C5: the forwarder returns true only when some relay attempt within the retries
  succeeded; and when every attempt fails with a transient error (a timeout, or a
  delivery-client error that is not permanent), it returns false after exactly
  \<^verbatim>\<open>retries\<close> relay attempts.
\<close>

theorem true_only_on_success_false_after_retries:
  "(fst (forward_to_channel relay ch retries) = Returned True \<longrightarrow>
      (\<exists>k. int k < retries \<and> relay k = Relayed))
   \<and> (0 \<le> retries \<and> (\<forall>k. int k < retries \<longrightarrow> is_transient (relay k)) \<longrightarrow>
        fst (forward_to_channel relay ch retries) = Returned False
        \<and> int (relay_attempts (snd (forward_to_channel relay ch retries))) = retries)"
proof (intro conjI impI)
  assume "fst (forward_to_channel relay ch retries) = Returned True"
  then show "\<exists>k. int k < retries \<and> relay k = Relayed"
    unfolding forward_to_channel_def by (blast dest: attempt_loop_true)
next
  assume a: "0 \<le> retries \<and> (\<forall>k. int k < retries \<longrightarrow> is_transient (relay k))"
  define n where "n = nat retries"
  have n: "int n = retries" using a by (simp add: n_def)
  have "\<forall>j. 0 \<le> j \<and> j < n \<longrightarrow> continues (relay j)"
    using a n by (auto intro: is_transient_continues)
  then have skip: "fst (attempt_loop relay ch retries 0) = fst (attempt_loop relay ch retries n) \<and>
        relay_attempts (snd (attempt_loop relay ch retries 0)) =
        (n - 0) + relay_attempts (snd (attempt_loop relay ch retries n))"
    using n by (intro attempt_loop_skip) auto
  have "\<not> int n < retries" using n by simp
  from attempt_loop_done [OF this] skip n
  show "fst (forward_to_channel relay ch retries) = Returned False"
    and "int (relay_attempts (snd (forward_to_channel relay ch retries))) = retries"
    by (simp_all add: forward_to_channel_def)
qed

theorem true_only_on_success_false_after_retries_witness:
  "fst (forward_to_channel second_try_relay ''-1001'' 3) = Returned True
   \<and> second_try_relay 1 = Relayed
   \<and> fst (forward_to_channel timing_out_relay ''-1001'' 3) = Returned False
   \<and> relay_attempts (snd (forward_to_channel timing_out_relay ''-1001'' 3)) = 3"
proof -
  have t: "fst (forward_to_channel second_try_relay ''-1001'' 3) = Returned True"
    by code_simp
  have h: "(0::int) \<le> 3 \<and> (\<forall>k. int k < 3 \<longrightarrow> is_transient (timing_out_relay k))"
    by (simp add: timing_out_relay_def)
  show ?thesis
    using true_only_on_success_false_after_retries [of timing_out_relay "''-1001''" 3] h t
    by (simp add: second_try_relay_def)
qed

text \<open>
  C9: when a relay attempt raises an exception that is no \<^verbatim>\<open>TelegramError\<close>, the
  loop ends in that iteration: the forwarder returns false, having logged the error,
  without a sleep and without a further attempt. When the attempts before it all led to
  a next iteration, this is attempt number \<open>k + 1\<close> and the last one.
\<close>

theorem unexpected_error_abandons:
  assumes "int k < retries" and "relay k = OtherException e"
    and "\<forall>j<k. continues (relay j)"
  shows "attempt_loop relay ch retries k
           = (Returned False, [Forward ch, Log (UnexpectedError ch e)])
         \<and> fst (forward_to_channel relay ch retries) = Returned False
         \<and> relay_attempts (snd (forward_to_channel relay ch retries)) = Suc k"
proof -
  have here: "attempt_loop relay ch retries k
                = (Returned False, [Forward ch, Log (UnexpectedError ch e)])"
    by (subst attempt_loop.simps) (simp add: assms(1,2))
  have "fst (attempt_loop relay ch retries 0) = fst (attempt_loop relay ch retries k) \<and>
        relay_attempts (snd (attempt_loop relay ch retries 0)) =
        (k - 0) + relay_attempts (snd (attempt_loop relay ch retries k))"
    using assms(1,3) by (intro attempt_loop_skip) auto
  with here show ?thesis by (simp add: forward_to_channel_def)
qed

theorem unexpected_error_abandons_witness:
  "attempt_loop crashing_relay ''-1001'' 3 1
     = (Returned False, [Forward ''-1001'', Log (UnexpectedError ''-1001'' ''boom'')])
   \<and> fst (forward_to_channel crashing_relay ''-1001'' 3) = Returned False
   \<and> relay_attempts (snd (forward_to_channel crashing_relay ''-1001'' 3)) = 2"
proof -
  have h1: "int 1 < 3" by simp
  have h2: "crashing_relay 1 = OtherException ''boom''" by (simp add: crashing_relay_def)
  have h3: "\<forall>j<1::nat. continues (crashing_relay j)" by (simp add: crashing_relay_def)
  show ?thesis
    using unexpected_error_abandons
      [where relay = crashing_relay and k = 1 and retries = 3 and ch = "''-1001''", OF h1 h2 h3]
    by simp
qed

section \<open>The dispatcher: auxiliary facts\<close>

lemma fst_prepend [simp]: "fst (prepend es p) = fst p"
  by (simp add: prepend_def)

lemma snd_prepend [simp]: "snd (prepend es p) = es @ snd p"
  by (simp add: prepend_def)

lemma gathers_append [simp]: "gathers (s @ t) = gathers s @ gathers t"
  by (induction s rule: gathers.induct) auto

lemma skeleton_append [simp]: "skeleton (s @ t) = skeleton s @ skeleton t"
  by (induction s rule: skeleton.induct) auto

lemma delays_append [simp]: "delays (s @ t) = delays s @ delays t"
  by (induction s rule: delays.induct) auto

lemma summaries_append [simp]: "summaries (s @ t) = summaries s @ summaries t"
  by (induction s rule: summaries.induct) auto

lemma count_true_append [simp]: "count_true (r @ r') = count_true r + count_true r'"
  by (simp add: count_true_def)

lemma count_not_true_append [simp]:
  "count_not_true (r @ r') = count_not_true r + count_not_true r'"
  by (simp add: count_not_true_def)

lemma count_true_plus_not_true: "count_true r + count_not_true r = length r"
  by (induction r) (auto simp: count_true_def count_not_true_def)

lemma run_batch_tasks:
  "run_batch env i (take batch_size (drop i chans))
     = map (task env chans) [i..<min (i + batch_size) (length chans)]"
  by (rule nth_equalityI) (auto simp: run_batch_def task_def nth_enumerate_eq)

lemma batch_slice:
  "take batch_size (drop i chans) = map (\<lambda>p. chans ! p) [i..<min (i + batch_size) (length chans)]"
  by (rule nth_equalityI) auto

lemma batch_loop_step:
  assumes "i < length chans"
  shows "batch_loop env chans i s f =
     prepend
       ([DLog (ProcessingBatch (i div batch_size + 1) (length (take batch_size (drop i chans)))),
         Gather (zip (take batch_size (drop i chans))
                   (map snd (map (task env chans) [i..<min (i + batch_size) (length chans)])))]
        @ (if i + batch_size < length chans then [DSleep 1] else []))
       (batch_loop env chans (i + batch_size)
          (s + count_true (map fst (map (task env chans) [i..<min (i + batch_size) (length chans)])))
          (f + count_not_true
                 (map fst (map (task env chans) [i..<min (i + batch_size) (length chans)]))))"
  using assms by (subst batch_loop.simps) (simp add: Let_def run_batch_tasks)

lemma batch_loop_stop:
  "\<not> i < length chans \<Longrightarrow> batch_loop env chans i s f = ((s, f), [])"
  by (subst batch_loop.simps) simp

lemma upt_split_batch:
  assumes "i < n"
  shows "[i..<n] = [i..<min (i + batch_size) n] @ [i + batch_size..<n]"
proof (cases "i + batch_size < n")
  case True
  then obtain d where d: "n = (i + batch_size) + d"
    using less_imp_add_positive by blast
  have "[i..<(i + batch_size) + d] = [i..<i + batch_size] @ [i + batch_size..<(i + batch_size) + d]"
    by (rule upt_add_eq_append) simp
  with True d show ?thesis by (simp add: min_def)
next
  case False
  then show ?thesis by (simp add: min_def)
qed

lemma map_split_batch:
  assumes "i < n"
  shows "map g [i..<n] = map g [i..<min (i + batch_size) n] @ map g [i + batch_size..<n]"
  using arg_cong [OF upt_split_batch [OF assms], of "map g"] by simp

lemma batch_loop_counts:
  "fst (batch_loop env chans i s f) =
     (s + count_true (map (fst \<circ> task env chans) [i..<length chans]),
      f + count_not_true (map (fst \<circ> task env chans) [i..<length chans]))"
proof (induction "length chans - i" arbitrary: i s f rule: less_induct)
  case less
  show ?case
  proof (cases "i < length chans")
    case True
    have "length chans - (i + batch_size) < length chans - i"
      using True by (simp add: batch_size_def)
    note IH = less [OF this]
    have "fst (batch_loop env chans i s f) =
          (s + count_true (map (fst \<circ> task env chans) [i..<min (i + batch_size) (length chans)])
             + count_true (map (fst \<circ> task env chans) [i + batch_size..<length chans]),
           f + count_not_true (map (fst \<circ> task env chans) [i..<min (i + batch_size) (length chans)])
             + count_not_true (map (fst \<circ> task env chans) [i + batch_size..<length chans]))"
      by (simp add: batch_loop_step [OF True] IH)
    then show ?thesis
      by (simp add: map_split_batch [OF True, of "fst \<circ> task env chans"] add.assoc)
  next
    case False
    then show ?thesis by (simp add: batch_loop_stop count_true_def count_not_true_def)
  qed
qed

lemma batch_loop_gathered:
  "concat (gathers (snd (batch_loop env chans i s f))) =
     map (\<lambda>p. (chans ! p, snd (task env chans p))) [i..<length chans]"
proof (induction "length chans - i" arbitrary: i s f rule: less_induct)
  case less
  show ?case
  proof (cases "i < length chans")
    case True
    have "length chans - (i + batch_size) < length chans - i"
      using True by (simp add: batch_size_def)
    note IH = less [OF this]
    have z: "zip (take batch_size (drop i chans))
               (map snd (map (task env chans) [i..<min (i + batch_size) (length chans)]))
             = map (\<lambda>p. (chans ! p, snd (task env chans p))) [i..<min (i + batch_size) (length chans)]"
      by (subst batch_slice) (simp add: zip_map_map zip_same_conv_map)
    have "concat (gathers (snd (batch_loop env chans i s f))) =
          map (\<lambda>p. (chans ! p, snd (task env chans p))) [i..<min (i + batch_size) (length chans)]
          @ map (\<lambda>p. (chans ! p, snd (task env chans p))) [i + batch_size..<length chans]"
      unfolding batch_loop_step [OF True] snd_prepend z
      by (cases "i + batch_size < length chans") (simp_all add: IH)
    then show ?thesis
      by (simp only: map_split_batch [OF True, symmetric])
  next
    case False
    then show ?thesis by (simp add: batch_loop_stop)
  qed
qed

lemma batches_from_step:
  assumes "i < n"
  shows "batches_from n i = Suc (batches_from n (i + batch_size))"
proof (cases "i + 20 \<le> n")
  case True
  define d where "d = n - (i + 20)"
  have ni: "n - i = 20 + d" and nib: "n - (i + 20) = d"
    using True by (simp_all add: d_def)
  have "(20 + d + 19) div 20 = Suc ((d + 19) div 20)"
    by (simp add: add.assoc)
  then show ?thesis
    by (simp add: batches_from_def batch_size_def ni nib)
next
  case False
  define e where "e = n - i - 1"
  have ni: "n - i = Suc e" using assms by (simp add: e_def)
  have z: "n - (i + 20) = 0" using False by simp
  have e19: "e < 19" using False assms by (simp add: e_def)
  have "(Suc e + 19) div 20 = 1"
    using e19 by (intro div_nat_eqI) simp_all
  then show ?thesis
    by (simp add: batches_from_def batch_size_def ni z)
qed

lemma batches_from_stop: "\<not> i < n \<Longrightarrow> batches_from n i = 0"
  unfolding batches_from_def batch_size_def by simp

lemma batches_from_more: "i + batch_size < n \<Longrightarrow> \<exists>m. batches_from n (i + batch_size) = Suc m"
  using batches_from_step [of "i + batch_size" n] by simp

lemma batch_loop_skeleton:
  "skeleton (snd (batch_loop env chans i s f)) = alternating (batches_from (length chans) i)"
proof (induction "length chans - i" arbitrary: i s f rule: less_induct)
  case less
  show ?case
  proof (cases "i < length chans")
    case True
    have "length chans - (i + batch_size) < length chans - i"
      using True by (simp add: batch_size_def)
    note IH = less [OF this]
    show ?thesis
    proof (cases "i + batch_size < length chans")
      case more: True
      from batches_from_more [OF more] obtain m
        where m: "batches_from (length chans) (i + batch_size) = Suc m" ..
      show ?thesis
        by (subst batch_loop_step [OF True])
           (simp add: IH more m batches_from_step [OF True])
    next
      case last: False
      then have "batches_from (length chans) (i + batch_size) = 0"
        by (simp add: batches_from_stop)
      then show ?thesis
        by (subst batch_loop_step [OF True])
           (simp add: IH last batches_from_step [OF True])
    qed
  next
    case False
    then show ?thesis by (simp add: batch_loop_stop batches_from_stop)
  qed
qed

lemma batch_loop_delays:
  "delays (snd (batch_loop env chans i s f)) = replicate (batches_from (length chans) i - 1) 1"
proof (induction "length chans - i" arbitrary: i s f rule: less_induct)
  case less
  show ?case
  proof (cases "i < length chans")
    case True
    have "length chans - (i + batch_size) < length chans - i"
      using True by (simp add: batch_size_def)
    note IH = less [OF this]
    show ?thesis
    proof (cases "i + batch_size < length chans")
      case more: True
      from batches_from_more [OF more] obtain m
        where m: "batches_from (length chans) (i + batch_size) = Suc m" ..
      show ?thesis
        by (subst batch_loop_step [OF True])
           (simp add: IH more m batches_from_step [OF True])
    next
      case last: False
      then have "batches_from (length chans) (i + batch_size) = 0"
        by (simp add: batches_from_stop)
      then show ?thesis
        by (subst batch_loop_step [OF True])
           (simp add: IH last batches_from_step [OF True])
    qed
  next
    case False
    then show ?thesis by (simp add: batch_loop_stop batches_from_stop)
  qed
qed


lemma batch_loop_dispatched:
  "dispatched (snd (batch_loop env chans i s f)) =
     map (\<lambda>j. take batch_size (drop (i + j * batch_size) chans))
       [0..<batches_from (length chans) i]"
proof (induction "length chans - i" arbitrary: i s f rule: less_induct)
  case less
  show ?case
  proof (cases "i < length chans")
    case True
    have "length chans - (i + batch_size) < length chans - i"
      using True by (simp add: batch_size_def)
    note IH = less [OF this]
    have l: "length (take batch_size (drop i chans))
               = length (map snd (map (task env chans) [i..<min (i + batch_size) (length chans)]))"
      by auto
    have "dispatched (snd (batch_loop env chans i s f)) =
          take batch_size (drop i chans)
          # dispatched (snd (batch_loop env chans (i + batch_size)
              (s + count_true (map fst (map (task env chans) [i..<min (i + batch_size) (length chans)])))
              (f + count_not_true
                 (map fst (map (task env chans) [i..<min (i + batch_size) (length chans)])))))"
      unfolding batch_loop_step [OF True] snd_prepend
      using map_fst_zip [OF l]
      by (cases "i + batch_size < length chans") (simp_all add: dispatched_def)
    also have "\<dots> = take batch_size (drop i chans)
          # map (\<lambda>j. take batch_size (drop (i + batch_size + j * batch_size) chans))
              [0..<batches_from (length chans) (i + batch_size)]"
      by (simp only: IH)
    also have "\<dots> = map (\<lambda>j. take batch_size (drop (i + j * batch_size) chans))
                      [0..<Suc (batches_from (length chans) (i + batch_size))]"
      by (simp add: map_upt_Suc add.assoc del: upt_Suc)
    finally show ?thesis by (simp only: batches_from_step [OF True])
  next
    case False
    then show ?thesis by (simp add: batch_loop_stop batches_from_stop dispatched_def)
  qed
qed

lemma batch_loop_summaries: "summaries (snd (batch_loop env chans i s f)) = []"
proof (induction "length chans - i" arbitrary: i s f rule: less_induct)
  case less
  show ?case
  proof (cases "i < length chans")
    case True
    have "length chans - (i + batch_size) < length chans - i"
      using True by (simp add: batch_size_def)
    note IH = less [OF this]
    show ?thesis
      unfolding batch_loop_step [OF True] snd_prepend
      by (cases "i + batch_size < length chans") (simp_all add: IH)
  next
    case False
    then show ?thesis by (simp add: batch_loop_stop)
  qed
qed

lemma forward_message_post:
  assumes "channel_post upd = Some m"
  shows "forward_message env chans upd =
     [DLog (NewMessage (msg_type_of m)), DLog (ForwardingTo (length chans))]
     @ snd (batch_loop env chans 0 0 0)
     @ [DLog Separator, DLog ForwardComplete,
        DLog (Summary (fst (fst (batch_loop env chans 0 0 0))) (length chans)
                (snd (fst (batch_loop env chans 0 0 0)))),
        DLog Separator]"
  using assms by (simp add: forward_message_def)

lemma forward_message_summaries:
  assumes "channel_post upd = Some m"
  shows "summaries (forward_message env chans upd) =
     [(count_true (map (fst \<circ> task env chans) [0..<length chans]), length chans,
       count_not_true (map (fst \<circ> task env chans) [0..<length chans]))]"
  by (simp add: forward_message_post [OF assms] batch_loop_summaries batch_loop_counts)

lemma forward_message_gathers:
  assumes "channel_post upd = Some m"
  shows "gathers (forward_message env chans upd) = gathers (snd (batch_loop env chans 0 0 0))"
  by (simp add: forward_message_post [OF assms])

lemma forward_message_skeleton:
  assumes "channel_post upd = Some m"
  shows "skeleton (forward_message env chans upd) = skeleton (snd (batch_loop env chans 0 0 0))"
  by (simp add: forward_message_post [OF assms])

lemma forward_message_delays:
  assumes "channel_post upd = Some m"
  shows "delays (forward_message env chans upd) = delays (snd (batch_loop env chans 0 0 0))"
  by (simp add: forward_message_post [OF assms])

lemma count_true_mset: "mset rs = mset rs' \<Longrightarrow> count_true rs = count_true rs'"
  unfolding count_true_def by (metis mset_filter size_mset)

lemma count_not_true_mset: "mset rs = mset rs' \<Longrightarrow> count_not_true rs = count_not_true rs'"
  unfolding count_not_true_def by (metis mset_filter size_mset)

lemma count_true_le: "count_true r \<le> length r"
  by (simp add: count_true_def)

lemma attempt_loop_returns:
  assumes "\<forall>k e. relay k \<noteq> BaseFault e"
  shows "\<exists>b. fst (attempt_loop relay ch retries a) = Returned b"
proof (induction "nat (retries - int a)" arbitrary: a)
  case 0
  then have "\<not> int a < retries" by simp
  then have "fst (attempt_loop relay ch retries a) = Returned False"
    by (simp add: attempt_loop_done)
  then show ?case by (rule exI)
next
  case (Suc n)
  then have ia: "int a < retries" by linarith
  have "n = nat (retries - int (Suc a))" using Suc.hyps(2) by linarith
  then obtain b where b: "fst (attempt_loop relay ch retries (Suc a)) = Returned b"
    using Suc.hyps(1) by blast
  show ?case
    using ia b assms
    by (subst attempt_loop.simps) (cases "relay a"; auto simp add: prepend_def Let_def)
qed

lemma concat_dispatched: "concat (dispatched t) = map fst (concat (gathers t))"
  by (simp add: dispatched_def map_concat)

lemma take_slice:
  assumes "a \<le> length xs"
  shows "take n (drop a xs) = slice xs a (min (a + n) (length xs))"
  using assms by (simp add: slice_def min_def)

lemma length_gathers_loop:
  "length (gathers (snd (batch_loop env chans i s f))) = batches_from (length chans) i"
  using arg_cong [OF batch_loop_dispatched [of env chans i s f], of length]
  by (simp add: dispatched_def)

section \<open>The dispatcher: batches, delays and counts\<close>

text \<open>
  C1: for every update with a channel post, every destination list and every behaviour
  of the delivery client, the run ends with exactly one summary, whose total is the
  number \<open>N\<close> of destinations and whose counts satisfy succeeded + failed = \<open>N\<close> and
  succeeded \<open>\<le> N\<close>: every destination is counted once, in one of the two counters.
  The two counts of a batch do not depend on the order of its results.
\<close>

theorem counts_add_up:
  assumes "channel_post upd = Some m"
  shows "(\<exists>s f. summaries (forward_message env chans upd) = [(s, length chans, f)]
            \<and> s + f = length chans \<and> s \<le> length chans)
         \<and> (\<forall>rs rs'. mset rs = mset rs' \<longrightarrow>
               count_true rs = count_true rs' \<and> count_not_true rs = count_not_true rs')"
proof -
  let ?rs = "map (fst \<circ> task env chans) [0..<length chans]"
  have "count_true ?rs + count_not_true ?rs = length chans"
    using count_true_plus_not_true [of ?rs] by simp
  moreover have "count_true ?rs \<le> length chans"
    using count_true_le [of ?rs] by simp
  ultimately show ?thesis
    using forward_message_summaries [OF assms, of env chans]
      count_true_mset count_not_true_mset by blast
qed

theorem counts_add_up_witness:
  "channel_post post_update = Some video_post
   \<and> (\<exists>s f. summaries (forward_message faulty_env three_channels post_update) = [(s, 3, f)]
          \<and> s + f = 3 \<and> s \<le> 3)
   \<and> count_true [Returned True, Raised ''x'', Returned False]
       = count_true [Returned False, Returned True, Raised ''x'']"
proof -
  have h: "channel_post post_update = Some video_post" by (simp add: post_update_def)
  have p: "mset [Returned True, Raised ''x'', Returned False]
             = mset [Returned False, Returned True, Raised ''x'']" by simp
  have l: "length three_channels = 3" by (simp add: three_channels_def)
  show ?thesis
    using counts_add_up [OF h, of faulty_env three_channels] h p
    by (simp add: l)
qed

text \<open>
  C2: the batches handed to \<^verbatim>\<open>asyncio.gather\<close>, in order, are the slices of the
  destination list from index \<open>i * 20\<close> up to \<open>min ((i + 1) * 20) N\<close>, for \<open>i\<close> below the
  rounded-up quotient of \<open>N\<close> by 20; each has at most 20 destinations, and together, in
  order, they are the destination list.
\<close>

theorem batches_are_slices:
  assumes "channel_post upd = Some m"
  shows "dispatched (forward_message env chans upd)
           = map (\<lambda>i. slice chans (i * batch_size) (min ((i + 1) * batch_size) (length chans)))
               [0..<(length chans + (batch_size - 1)) div batch_size]
         \<and> (\<forall>b \<in> set (dispatched (forward_message env chans upd)). length b \<le> batch_size)
         \<and> concat (dispatched (forward_message env chans upd)) = chans
         \<and> batch_size = 20"
proof -
  let ?k = "(length chans + (batch_size - 1)) div batch_size"
  have d: "dispatched (forward_message env chans upd)
             = map (\<lambda>j. take batch_size (drop (j * batch_size) chans)) [0..<?k]"
    using batch_loop_dispatched [of env chans 0 0 0]
    by (simp add: dispatched_def forward_message_gathers [OF assms] batches_from_def)
  have lt: "j * batch_size \<le> length chans" if "j < ?k" for j
  proof -
    have "j * batch_size < length chans + (batch_size - 1) + 1 - (batch_size - 1)"
      using that by (simp add: batch_size_def less_mult_imp_div_less div_less_iff_less_mult)
    then show ?thesis by simp
  qed
  have "map (\<lambda>j. take batch_size (drop (j * batch_size) chans)) [0..<?k]
          = map (\<lambda>i. slice chans (i * batch_size) (min ((i + 1) * batch_size) (length chans)))
              [0..<?k]"
    by (rule map_cong [OF refl]) (simp add: take_slice [OF lt] algebra_simps)
  with d have one: "dispatched (forward_message env chans upd)
           = map (\<lambda>i. slice chans (i * batch_size) (min ((i + 1) * batch_size) (length chans)))
               [0..<?k]" by simp
  have two: "\<forall>b \<in> set (dispatched (forward_message env chans upd)). length b \<le> batch_size"
    unfolding d by auto
  have "concat (dispatched (forward_message env chans upd))
          = map (\<lambda>p. chans ! p) [0..<length chans]"
    by (simp add: concat_dispatched forward_message_gathers [OF assms]
          batch_loop_gathered comp_def)
  then have three: "concat (dispatched (forward_message env chans upd)) = chans"
    by (simp add: map_nth)
  from one two three show ?thesis by (simp add: batch_size_def)
qed


theorem batches_are_slices_witness:
  "channel_post post_update = Some video_post
   \<and> length (dispatched (forward_message relaying_env many_channels post_update)) = 3
   \<and> dispatched (forward_message relaying_env many_channels post_update) \<noteq> []
   \<and> map length (dispatched (forward_message relaying_env many_channels post_update))
       = [20, 20, 1]
   \<and> concat (dispatched (forward_message relaying_env many_channels post_update))
       = many_channels"
proof -
  let ?t = "forward_message relaying_env many_channels post_update"
  have h: "channel_post post_update = Some video_post" by (simp add: post_update_def)
  have l: "length many_channels = 41" by (simp add: many_channels_def)
  have k: "(41 + (batch_size - 1)) div batch_size = 3" by (simp add: batch_size_def)
  note t = batches_are_slices [OF h, of relaying_env many_channels]
  have d: "dispatched ?t
             = map (\<lambda>i. slice many_channels (i * batch_size) (min ((i + 1) * batch_size) 41))
                 [0..<3]"
    using t unfolding l k by blast
  have len: "length (dispatched ?t) = 3" unfolding d by simp
  then have ne: "dispatched ?t \<noteq> []" by auto
  have e: "map length
             (map (\<lambda>i. slice many_channels (i * batch_size) (min ((i + 1) * batch_size) 41))
                [0..<3]) = [20, 20, 1]"
    by code_simp
  have b: "map length (dispatched ?t) = [20, 20, 1]"
    unfolding d by (rule e)
  have c: "concat (dispatched ?t) = many_channels" using t by blast
  show ?thesis using h len ne b c by blast
qed

text \<open>
  C6: with \<open>k\<close> batches, the events of the handler, log lines apart, are \<open>k\<close> batches with
  one sleep between any two consecutive ones and none after the last; the inter-batch
  sleeps are \<open>k - 1\<close> sleeps of one second (none for zero batches or one batch).
\<close>

theorem delay_between_batches_only:
  assumes "channel_post upd = Some m"
  shows "skeleton (forward_message env chans upd)
           = alternating (length (gathers (forward_message env chans upd)))
         \<and> delays (forward_message env chans upd)
           = replicate (length (gathers (forward_message env chans upd)) - 1) 1
         \<and> length (gathers (forward_message env chans upd))
           = (length chans + (batch_size - 1)) div batch_size"
  by (simp add: forward_message_gathers [OF assms] forward_message_skeleton [OF assms]
        forward_message_delays [OF assms] batch_loop_skeleton batch_loop_delays
        length_gathers_loop batches_from_def)

theorem delay_between_batches_only_witness:
  "channel_post post_update = Some video_post
   \<and> skeleton (forward_message relaying_env many_channels post_update)
       = [Batch, Delay, Batch, Delay, Batch]
   \<and> delays (forward_message relaying_env many_channels post_update) = [1, 1]
   \<and> length (gathers (forward_message relaying_env many_channels post_update)) = 3"
proof -
  let ?t = "forward_message relaying_env many_channels post_update"
  have h: "channel_post post_update = Some video_post" by (simp add: post_update_def)
  have l: "length many_channels = 41" by (simp add: many_channels_def)
  have k: "(41 + (batch_size - 1)) div batch_size = 3" by (simp add: batch_size_def)
  have a: "alternating 3 = [Batch, Delay, Batch, Delay, Batch]"
    by (simp add: numeral_3_eq_3)
  have r: "replicate (3 - 1) (1::int) = [1, 1]"
    by (simp add: numeral_2_eq_2)
  note t = delay_between_batches_only [OF h, of relaying_env many_channels]
  have g: "length (gathers ?t) = 3" using t unfolding l k by blast
  have s: "skeleton ?t = [Batch, Delay, Batch, Delay, Batch]" using t unfolding g a by blast
  have d: "delays ?t = [1, 1]" using t unfolding g r by blast
  show ?thesis using h g s d by blast
qed

text \<open>
  C7: the handler always reaches its summary, and the counts in it are taken over the
  results of all destinations, each task run on its own responses: the failure of one
  changes neither the others nor what follows. A result that is an exception value is no
  success and counts as one failure. The forwarder itself raises nothing unless the
  relay raises what derives from \<^verbatim>\<open>BaseException\<close> only; every other failure becomes
  a returned boolean.
\<close>

theorem faults_are_counted_as_failures:
  assumes "channel_post upd = Some m"
  shows "summaries (forward_message env chans upd)
           = [(count_true (map (fst \<circ> task env chans) [0..<length chans]), length chans,
               count_not_true (map (fst \<circ> task env chans) [0..<length chans]))]
         \<and> concat (gathers (forward_message env chans upd))
           = map (\<lambda>p. (chans ! p, snd (task env chans p))) [0..<length chans]
         \<and> count_true [Raised e] = 0 \<and> count_not_true [Raised e] = 1
         \<and> ((\<forall>k e'. relay k \<noteq> BaseFault e') \<longrightarrow>
              (\<exists>b. fst (forward_to_channel relay ch retries) = Returned b))"
  using attempt_loop_returns [of relay ch retries 0]
  by (simp add: forward_message_summaries [OF assms] forward_message_gathers [OF assms]
        batch_loop_gathered count_true_def count_not_true_def forward_to_channel_def)

theorem faults_are_counted_as_failures_witness:
  "channel_post post_update = Some video_post
   \<and> summaries (forward_message faulty_env three_channels post_update) = [(1, 3, 2)]
   \<and> map fst (concat (gathers (forward_message faulty_env three_channels post_update)))
       = three_channels
   \<and> fst (forward_to_channel crashing_relay ''-1001'' 3) = Returned False"
proof -
  have h: "channel_post post_update = Some video_post" by (simp add: post_update_def)
  have l: "length three_channels = 3" by (simp add: three_channels_def)
  have c: "count_true (map (fst \<circ> task faulty_env three_channels) [0..<3]) = 1"
    by code_simp
  have n: "count_not_true (map (fst \<circ> task faulty_env three_channels) [0..<3]) = 2"
    by code_simp
  have g: "map fst (map (\<lambda>p. (three_channels ! p, snd (task faulty_env three_channels p)))
             [0..<3]) = three_channels"
    by code_simp
  have nf: "\<forall>k e'. crashing_relay k \<noteq> BaseFault e'" by (simp add: crashing_relay_def)
  have f: "fst (forward_to_channel crashing_relay ''-1001'' 3) = Returned False" by code_simp
  let ?t = "forward_message faulty_env three_channels post_update"
  note t = faults_are_counted_as_failures
             [OF h, of faulty_env three_channels "''x''" crashing_relay "''-1001''" 3]
  have s: "summaries ?t = [(1, 3, 2)]" using t unfolding l c n by blast
  have gg: "concat (gathers ?t)
              = map (\<lambda>p. (three_channels ! p, snd (task faulty_env three_channels p))) [0..<3]"
    using t unfolding l by blast
  have m: "map fst (concat (gathers ?t)) = three_channels" unfolding gg by (rule g)
  have "\<exists>b. fst (forward_to_channel crashing_relay ''-1001'' 3) = Returned b"
    using t nf by blast
  then show ?thesis using h s m f by blast
qed

text \<open>
  C10: for an update without a channel post the handler does nothing at all (no relay
  attempt, no sleep, no log line, no summary); a summary appears only, and then exactly
  once, for an update with a channel post.
\<close>

theorem no_post_no_run:
  "(channel_post upd = None \<longrightarrow> forward_message env chans upd = [])
   \<and> (summaries (forward_message env chans upd) \<noteq> [] \<longrightarrow> channel_post upd \<noteq> None)
   \<and> (channel_post upd \<noteq> None \<longrightarrow> length (summaries (forward_message env chans upd)) = 1)"
proof (cases "channel_post upd")
  case None
  then show ?thesis by (simp add: forward_message_def)
next
  case (Some m)
  then show ?thesis by (simp add: forward_message_summaries [OF Some])
qed

theorem no_post_no_run_witness:
  "channel_post other_update = None
   \<and> forward_message relaying_env three_channels other_update = []
   \<and> channel_post post_update \<noteq> None
   \<and> summaries (forward_message relaying_env three_channels post_update) \<noteq> []"
proof -
  have h: "channel_post other_update = None" by (simp add: other_update_def)
  have p: "channel_post post_update \<noteq> None" by (simp add: post_update_def)
  show ?thesis
    using no_post_no_run [of other_update relaying_env three_channels]
      no_post_no_run [of post_update relaying_env three_channels] h p
    by auto
qed

section \<open>The configured destinations: order and duplicates\<close>

lemma split_on_no_sep: "sep \<notin> set f \<Longrightarrow> split_on sep f = [f]"
  by (induction f) auto

lemma split_on_append:
  "sep \<notin> set f \<Longrightarrow> split_on sep (f @ sep # rest) = f # split_on sep rest"
  by (induction f) auto

lemma split_on_join:
  assumes "\<forall>e \<in> set es. CHR '','' \<notin> set e" and "es \<noteq> []"
  shows "split_on (CHR '','') (join_entries es) = es"
  using assms
proof (induction es rule: join_entries.induct)
  case 1
  then show ?case by simp
next
  case (2 e)
  then show ?case by (simp add: split_on_no_sep)
next
  case (3 e e' es)
  then show ?case by (simp add: split_on_append)
qed

lemma strip_Nil: "strip [] = []"
  by (simp add: strip_def)

text \<open>
  C8, as stated: the list handed to the dispatcher holds each distinct destination once.
  It fails on the code: nothing removes duplicates, and the configuration value
  \<^verbatim>\<open>-1001,-1001\<close> gives the destination \<^verbatim>\<open>-1001\<close> twice.
\<close>

theorem duplicates_counterexample:
  "target_channels_of (Some ''-1001,-1001'') = [''-1001'', ''-1001'']
   \<and> \<not> distinct (target_channels_of (Some ''-1001,-1001''))"
  by code_simp

text \<open>
  C8, amended: the list handed to the dispatcher is order-preserving and keeps
  duplicates. For a configuration value made of comma-separated entries, it is the list
  of the entries stripped of surrounding white space, the blank ones left out, in the
  order of the configuration, one element per occurrence.
\<close>

theorem entries_kept_in_order:
  assumes "\<forall>e \<in> set entries. CHR '','' \<notin> set e"
  shows "target_channels_of (Some (join_entries entries))
           = filter (\<lambda>ch. ch \<noteq> []) (map strip entries)"
proof (cases "entries = []")
  case True
  then show ?thesis by (simp add: target_channels_of_def strip_Nil)
next
  case False
  then show ?thesis
    by (simp add: target_channels_of_def split_on_join [OF assms] filter_map comp_def)
qed

theorem entries_kept_in_order_witness:
  "target_channels_of (Some '' -1001,-1002 ,,-1001'') = [''-1001'', ''-1002'', ''-1001'']"
proof -
  have h: "\<forall>e \<in> set configured_entries. CHR '','' \<notin> set e"
    by (simp add: configured_entries_def)
  have j: "join_entries configured_entries = '' -1001,-1002 ,,-1001''"
    by (simp add: configured_entries_def)
  have r: "filter (\<lambda>ch. ch \<noteq> []) (map strip configured_entries)
             = [''-1001'', ''-1002'', ''-1001'']"
    by code_simp
  show ?thesis
    using entries_kept_in_order [OF h] unfolding j r .
qed

end
